theory Spec2Isabelle
  imports Complex_Main "HOL-Library.Product_Lexorder" "HOL-Library.List_Lexorder"
    "HOL-Library.Char_ord" "HOL-Library.Multiset"
begin

section \<open>Buscador local de archivos: the persistent store\<close>

text \<open>
  The program keeps two SQLite tables, created by \<open>db_connect\<close>:
  \<^verbatim>\<open>archivos(id INTEGER PRIMARY KEY, path TEXT UNIQUE, name, ext, size, mtime)\<close> and
  \<^verbatim>\<open>tags(file_path, tag, UNIQUE(file_path, tag))\<close>.
  A table is modelled as the list of its rows, in the order in which a
  \<^verbatim>\<open>SELECT\<close> without \<^verbatim>\<open>ORDER BY\<close> hands them out. Python strings are
  modelled as \<open>string\<close>, one \<open>char\<close> per code point (code points below 256), sizes as
  \<open>int\<close>, and the floating-point columns and scores as exact rationals.
\<close>

record archivo =
  row_id :: nat
  row_path :: string
  row_name :: string
  row_ext :: string
  row_size :: int
  row_mtime :: rat

record db =
  archivos :: "archivo list"
  tags :: "(string \<times> string) list"

text \<open>\<open>db_connect\<close> on a fresh database file: both tables exist and are empty.\<close>

definition db_connect :: db where
  "db_connect = \<lparr>archivos = [], tags = []\<rparr>"

text \<open>
  What the program prints, one constructor per \<^verbatim>\<open>print\<close> call of the source.
\<close>

datatype salida =
    RutaNoExiste string
  | Indexados nat
  | IndexacionCompletada nat
  | TagAnadido string string
  | TagEliminado string string
  | NoHayTags
  | TagCuenta string nat

subsection \<open>The metadata table\<close>

text \<open>
  SQLite gives a new row of a table with an \<^verbatim>\<open>INTEGER PRIMARY KEY\<close> a rowid one
  larger than the largest in use.
\<close>

definition next_rowid :: "archivo list \<Rightarrow> nat" where
  "next_rowid rows = Suc (fold max (map row_id rows) 0)"

text \<open>
  \<^verbatim>\<open>INSERT OR REPLACE INTO archivos (path, name, ext, size, mtime) VALUES (?, ?, ?, ?, ?)\<close>:
  the rows that conflict with the new one on the \<^verbatim>\<open>UNIQUE\<close> column \<open>path\<close> are
  deleted, then the new row is inserted.
\<close>

definition insert_or_replace ::
  "string \<times> string \<times> string \<times> int \<times> rat \<Rightarrow> archivo list \<Rightarrow> archivo list" where
  "insert_or_replace v rows =
     (case v of (p, n, e, s, m) \<Rightarrow>
        filter (\<lambda>r. row_path r \<noteq> p) rows @
        [\<lparr>row_id = next_rowid rows, row_path = p, row_name = n, row_ext = e,
          row_size = s, row_mtime = m\<rparr>])"

subsection \<open>The file system seen by \<open>indexar\<close>\<close>

text \<open>
  \<open>indexar\<close> reads the file system through \<^verbatim>\<open>Path.exists\<close>, \<^verbatim>\<open>os.walk\<close> and
  \<^verbatim>\<open>Path.stat\<close>. The file system is a parameter of the model: \<open>fs_stat\<close> is the outcome
  of \<open>stat()\<close> on the root, the stat result or the exception raised; \<open>fs_str\<close> is
  \<open>str(Path(ruta))\<close>, the spelling that \<open>pathlib\<close> gives the argument; and \<open>fs_walk\<close>
  lists, in the order of the walk, every file \<open>p = Path(root) / f\<close> with \<open>str(p)\<close>,
  \<open>p.name\<close>, \<open>p.suffix\<close> and the result of \<open>p.stat()\<close> (\<open>None\<close> when it raises:
  the loop catches every exception of that call).
\<close>

datatype errno = ENOENT | ENOTDIR | EBADF | ELOOP | ENAMETOOLONG | EACCES | EIO

datatype excepcion = OSError errno | ValueError

record stat_result =
  st_size :: int
  st_mtime :: rat

record entry =
  e_path :: string
  e_name :: string
  e_suffix :: string
  e_stat :: "stat_result option"

record filesystem =
  fs_stat :: "string \<Rightarrow> excepcion + stat_result"
  fs_str :: "string \<Rightarrow> string"
  fs_walk :: "string \<Rightarrow> entry list"

text \<open>
  \<open>pathlib\<close>'s \<open>_ignore_error\<close> and \<open>Path.exists\<close>: \<open>exists\<close> calls \<open>stat\<close>; an
  \<open>OSError\<close> whose \<open>errno\<close> is one of \<open>ENOENT\<close>, \<open>ENOTDIR\<close>, \<open>EBADF\<close>, \<open>ELOOP\<close> and
  a \<open>ValueError\<close> (a path that cannot be encoded) give \<open>False\<close>, and every other
  \<open>OSError\<close> is raised again.
\<close>

definition ignore_error :: "errno \<Rightarrow> bool" where
  "ignore_error e = (e = ENOENT \<or> e = ENOTDIR \<or> e = EBADF \<or> e = ELOOP)"

definition path_exists :: "filesystem \<Rightarrow> string \<Rightarrow> excepcion + bool" where
  "path_exists fs ruta =
     (case fs_stat fs ruta of
        Inr st \<Rightarrow> Inr True
      | Inl (OSError e) \<Rightarrow> if ignore_error e then Inr False else Inl (OSError e)
      | Inl ValueError \<Rightarrow> Inr False)"

subsection \<open>Strings\<close>

text \<open>
  \<^verbatim>\<open>str.lower\<close> on code points below 256: the letters \<open>A\<close> to \<open>Z\<close> and the
  Latin-1 capitals (192 to 222 but the multiplication sign 215) move up by 32.
\<close>

definition lower_char :: "char \<Rightarrow> char" where
  "lower_char c =
     (let n = (of_char c :: nat) in
      if (65 \<le> n \<and> n \<le> 90) \<or> (192 \<le> n \<and> n \<le> 222 \<and> n \<noteq> 215)
      then char_of (n + 32) else c)"

definition lower :: "string \<Rightarrow> string" where
  "lower s = map lower_char s"

text \<open>\<^verbatim>\<open>s.lstrip('.')\<close> drops every leading dot.\<close>

definition lstrip_dot :: "string \<Rightarrow> string" where
  "lstrip_dot s = dropWhile (\<lambda>c. c = CHR ''.'') s"

subsection \<open>\<open>indexar\<close>\<close>

text \<open>
  The body of the two nested \<^verbatim>\<open>for\<close> loops, once per file of the walk; the state is
  the table, the counter and the lines printed so far.
\<close>

fun indexar_loop ::
  "bool \<Rightarrow> entry list \<Rightarrow> archivo list \<times> nat \<times> salida list \<Rightarrow> archivo list \<times> nat \<times> salida list" where
  "indexar_loop verbose [] st = st"
| "indexar_loop verbose (p # ps) (rows, contador, out) =
     (case e_stat p of
        None \<Rightarrow> indexar_loop verbose ps (rows, contador, out)
      | Some stat \<Rightarrow>
          (let nombre = e_name p;
               ext = lstrip_dot (lower (e_suffix p));
               size = st_size stat;
               mtime = st_mtime stat;
               rows' = insert_or_replace (e_path p, nombre, ext, size, mtime) rows;
               contador' = contador + 1;
               out' = (if verbose \<and> contador' mod 100 = 0
                       then out @ [Indexados contador'] else out)
           in indexar_loop verbose ps (rows', contador', out')))"

text \<open>
  \<open>indexar\<close>. Neither \<open>indexar\<close> nor \<open>main\<close> catches what \<open>ruta.exists()\<close> raises:
  the command then ends with that exception (\<open>Inl\<close>), before any row is written.
\<close>

definition indexar ::
  "filesystem \<Rightarrow> string \<Rightarrow> db \<Rightarrow> bool \<Rightarrow> excepcion + db \<times> salida list" where
  "indexar fs ruta conn verbose =
     (case path_exists fs ruta of
        Inl e \<Rightarrow> Inl e
      | Inr existe \<Rightarrow>
          if \<not> existe then Inr (conn, [RutaNoExiste (fs_str fs ruta)])
          else
            (case indexar_loop verbose (fs_walk fs ruta) (archivos conn, 0, []) of
               (rows, contador, out) \<Rightarrow>
                 Inr (conn\<lparr>archivos := rows\<rparr>, out @ [IndexacionCompletada contador])))"

subsection \<open>Tags\<close>

text \<open>
  \<^verbatim>\<open>INSERT OR IGNORE INTO tags (file_path, tag) VALUES (?, ?)\<close>: a row that would
  break \<^verbatim>\<open>UNIQUE(file_path, tag)\<close> is skipped.
\<close>

definition tag_add :: "string \<Rightarrow> string \<Rightarrow> db \<Rightarrow> db \<times> salida list" where
  "tag_add path tag conn =
     (conn\<lparr>tags := (if (path, tag) \<in> set (tags conn) then tags conn
                     else tags conn @ [(path, tag)])\<rparr>,
      [TagAnadido tag path])"

text \<open>\<^verbatim>\<open>DELETE FROM tags WHERE file_path = ? AND tag = ?\<close>\<close>

definition tag_remove :: "string \<Rightarrow> string \<Rightarrow> db \<Rightarrow> db \<times> salida list" where
  "tag_remove path tag conn =
     (conn\<lparr>tags := filter (\<lambda>(fp, t). \<not> (fp = path \<and> t = tag)) (tags conn)\<rparr>,
      [TagEliminado tag path])"

text \<open>\<^verbatim>\<open>SELECT tag FROM tags WHERE file_path = ?\<close>\<close>

definition get_tags_for :: "string \<Rightarrow> db \<Rightarrow> string list" where
  "get_tags_for path conn = map snd (filter (\<lambda>(fp, t). fp = path) (tags conn))"

subsection \<open>Runs of the program\<close>

text \<open>
  The commands of \<open>main\<close> that write to the store. A reachable store is what a
  sequence of them leaves, starting from the empty database. An \<open>index\<close> command that
  ends with an exception has written nothing and leaves the store as it was.
\<close>

datatype cmd =
    Index filesystem string bool
  | TagAdd string string
  | TagRemove string string

fun exec :: "db \<Rightarrow> cmd \<Rightarrow> db" where
  "exec conn (Index fs ruta verbose) =
     (case indexar fs ruta conn verbose of Inl e \<Rightarrow> conn | Inr (conn', out) \<Rightarrow> conn')"
| "exec conn (TagAdd path tag) = fst (tag_add path tag conn)"
| "exec conn (TagRemove path tag) = fst (tag_remove path tag conn)"

definition run :: "cmd list \<Rightarrow> db" where
  "run cmds = foldl exec db_connect cmds"

section \<open>\<open>difflib.SequenceMatcher\<close>\<close>

text \<open>
  \<open>score_nombre\<close> is \<^verbatim>\<open>SequenceMatcher(None, query.lower(), name.lower()).ratio()\<close>.
  The definitions below follow \<open>difflib.py\<close> of the standard library, for sequences
  of any element type. Positions and sizes are natural numbers; the source only reads
  \<open>a[i]\<close> and \<open>b[j]\<close> inside the sequences.
\<close>

text \<open>
  \<open>__chain_b\<close>: with \<open>autojunk\<close> on (the default) and \<open>b\<close> of 200 elements or more, an
  element that occurs more than \<open>len(b) // 100 + 1\<close> times is popular and loses its entry
  in \<open>b2j\<close>. \<open>b2j\<close> maps every other element of \<open>b\<close> to the increasing list of its
  positions; \<open>b2j.get(elt, nothing)\<close> is the empty list for an element without entry.
\<close>

definition popular :: "'a list \<Rightarrow> 'a \<Rightarrow> bool" where
  "popular b elt = (length b \<ge> 200 \<and> count_list b elt > length b div 100 + 1)"

definition b2j :: "'a list \<Rightarrow> 'a \<Rightarrow> nat list" where
  "b2j b elt = (if popular b elt then [] else filter (\<lambda>j. b ! j = elt) [0..<length b])"

text \<open>\<open>score_nombre\<close> passes \<open>isjunk = None\<close>, so the set \<open>bjunk\<close> stays empty.\<close>

definition isbjunk :: "'a \<Rightarrow> bool" where
  "isbjunk elt = False"

text \<open>
  \<open>j2len.get(j - 1, 0)\<close>: the key \<open>j - 1\<close> is \<open>-1\<close> for \<open>j = 0\<close>, which is never
  in the dictionary.
\<close>

definition j2lenget :: "(nat \<rightharpoonup> nat) \<Rightarrow> nat \<Rightarrow> nat" where
  "j2lenget j2len j = (if j = 0 then 0 else case j2len (j - 1) of None \<Rightarrow> 0 | Some v \<Rightarrow> v)"

text \<open>
  \<open>find_longest_match\<close>, inner loop \<^verbatim>\<open>for j in b2j.get(a[i], nothing)\<close> with its
  \<^verbatim>\<open>continue\<close> and \<^verbatim>\<open>break\<close>; the state is \<open>newj2len\<close> and
  \<open>(besti, bestj, bestsize)\<close>.
\<close>

fun flm_inner ::
  "nat \<Rightarrow> nat \<Rightarrow> nat \<Rightarrow> (nat \<rightharpoonup> nat) \<Rightarrow> nat list \<Rightarrow>
   (nat \<rightharpoonup> nat) \<times> nat \<times> nat \<times> nat \<Rightarrow> (nat \<rightharpoonup> nat) \<times> nat \<times> nat \<times> nat" where
  "flm_inner i blo bhi j2len [] st = st"
| "flm_inner i blo bhi j2len (j # js) (newj2len, besti, bestj, bestsize) =
     (if j < blo then flm_inner i blo bhi j2len js (newj2len, besti, bestj, bestsize)
      else if j \<ge> bhi then (newj2len, besti, bestj, bestsize)
      else
        (let k = j2lenget j2len j + 1;
             newj2len' = newj2len(j \<mapsto> k)
         in if k > bestsize
            then flm_inner i blo bhi j2len js (newj2len', i + 1 - k, j + 1 - k, k)
            else flm_inner i blo bhi j2len js (newj2len', besti, bestj, bestsize)))"

text \<open>The outer loop \<^verbatim>\<open>for i in range(alo, ahi)\<close>; the state is \<open>j2len\<close> and the best match.\<close>

fun flm_outer ::
  "'a list \<Rightarrow> 'a list \<Rightarrow> nat \<Rightarrow> nat \<Rightarrow> nat list \<Rightarrow>
   (nat \<rightharpoonup> nat) \<times> nat \<times> nat \<times> nat \<Rightarrow> (nat \<rightharpoonup> nat) \<times> nat \<times> nat \<times> nat" where
  "flm_outer a b blo bhi [] st = st"
| "flm_outer a b blo bhi (i # is) (j2len, best) =
     flm_outer a b blo bhi is (flm_inner i blo bhi j2len (b2j b (a ! i)) (Map.empty, best))"

text \<open>
  The four \<^verbatim>\<open>while\<close> loops that extend the match to the left and to the right, first
  over elements that are not junk, then over junk; \<open>P\<close> is the test on \<open>b[bestj-1]\<close>
  or \<open>b[bestj+bestsize]\<close>.
\<close>

function extend_left ::
  "('a \<Rightarrow> bool) \<Rightarrow> 'a list \<Rightarrow> 'a list \<Rightarrow> nat \<Rightarrow> nat \<Rightarrow> nat \<times> nat \<times> nat \<Rightarrow> nat \<times> nat \<times> nat" where
  "extend_left P a b alo blo (besti, bestj, bestsize) =
     (if besti > alo \<and> bestj > blo \<and> P (b ! (bestj - 1)) \<and> a ! (besti - 1) = b ! (bestj - 1)
      then extend_left P a b alo blo (besti - 1, bestj - 1, bestsize + 1)
      else (besti, bestj, bestsize))"
  by pat_completeness auto
termination
  by (relation "measure (\<lambda>(P, a, b, alo, blo, besti, bestj, bestsize). besti)") auto

function extend_right ::
  "('a \<Rightarrow> bool) \<Rightarrow> 'a list \<Rightarrow> 'a list \<Rightarrow> nat \<Rightarrow> nat \<Rightarrow> nat \<times> nat \<times> nat \<Rightarrow> nat \<times> nat \<times> nat" where
  "extend_right P a b ahi bhi (besti, bestj, bestsize) =
     (if besti + bestsize < ahi \<and> bestj + bestsize < bhi \<and> P (b ! (bestj + bestsize)) \<and>
         a ! (besti + bestsize) = b ! (bestj + bestsize)
      then extend_right P a b ahi bhi (besti, bestj, bestsize + 1)
      else (besti, bestj, bestsize))"
  by pat_completeness auto
termination
  by (relation "measure (\<lambda>(P, a, b, ahi, bhi, besti, bestj, bestsize). ahi - (besti + bestsize))") auto

declare extend_left.simps [simp del] extend_right.simps [simp del]

definition find_longest_match ::
  "'a list \<Rightarrow> 'a list \<Rightarrow> nat \<Rightarrow> nat \<Rightarrow> nat \<Rightarrow> nat \<Rightarrow> nat \<times> nat \<times> nat" where
  "find_longest_match a b alo ahi blo bhi =
     (let best0 = snd (flm_outer a b blo bhi [alo..<ahi] (Map.empty, alo, blo, 0));
          best1 = extend_left (\<lambda>x. \<not> isbjunk x) a b alo blo best0;
          best2 = extend_right (\<lambda>x. \<not> isbjunk x) a b ahi bhi best1;
          best3 = extend_left isbjunk a b alo blo best2;
          best4 = extend_right isbjunk a b ahi bhi best3
      in best4)"



subsection \<open>The block found lies inside the region searched\<close>

text \<open>
  The loop of \<open>get_matching_blocks\<close> ends because every block found lies inside the
  region it was searched in. The invariants: an entry \<open>k\<close> of \<open>j2len\<close> at \<open>j\<close>
  is the length of a match that ends at \<open>j\<close> and starts at \<open>blo\<close> or later, and the best
  match is either the initial \<open>(alo, blo, 0)\<close> or lies inside \<open>[alo, ahi) \<times> [blo, bhi)\<close>.
\<close>

definition prev_ok :: "nat \<Rightarrow> nat \<Rightarrow> nat \<Rightarrow> (nat \<rightharpoonup> nat) \<Rightarrow> bool" where
  "prev_ok alo blo i m = (\<forall>j k. m j = Some k \<longrightarrow> k + alo \<le> i \<and> k + blo \<le> j + 1)"

definition best_ok :: "nat \<Rightarrow> nat \<Rightarrow> nat \<Rightarrow> nat \<Rightarrow> nat \<times> nat \<times> nat \<Rightarrow> bool" where
  "best_ok alo ahi blo bhi best =
     (case best of (bi, bj, bs) \<Rightarrow>
        (bs = 0 \<and> bi = alo \<and> bj = blo) \<or>
        (alo \<le> bi \<and> bi + bs \<le> ahi \<and> blo \<le> bj \<and> bj + bs \<le> bhi))"

lemma j2lenget_bound:
  assumes "prev_ok alo blo i m" "alo \<le> i" "blo \<le> j"
  shows "j2lenget m j + 1 + alo \<le> i + 1 \<and> j2lenget m j + 1 + blo \<le> j + 1"
proof (cases "j = 0")
  case True
  then show ?thesis using assms by (simp add: j2lenget_def)
next
  case False
  show ?thesis
  proof (cases "m (j - 1)")
    case None
    then show ?thesis using assms False by (simp add: j2lenget_def)
  next
    case (Some k)
    then have "k + alo \<le> i \<and> k + blo \<le> (j - 1) + 1"
      using assms(1) unfolding prev_ok_def by blast
    then show ?thesis using Some False by (simp add: j2lenget_def)
  qed
qed

lemma flm_inner_bounds:
  assumes "prev_ok alo blo i j2len" "alo \<le> i" "i < ahi"
  shows "prev_ok alo blo (i + 1) newj2len \<Longrightarrow> best_ok alo ahi blo bhi best \<Longrightarrow>
         prev_ok alo blo (i + 1) (fst (flm_inner i blo bhi j2len js (newj2len, best))) \<and>
         best_ok alo ahi blo bhi (snd (flm_inner i blo bhi j2len js (newj2len, best)))"
proof (induction js arbitrary: newj2len best)
  case Nil
  then show ?case by simp
next
  case (Cons j js)
  obtain bi bj bs where best: "best = (bi, bj, bs)" by (cases best) auto
  show ?case
  proof (cases "j < blo")
    case True
    then show ?thesis using Cons best by simp
  next
    case lo: False
    show ?thesis
    proof (cases "j \<ge> bhi")
      case True
      then show ?thesis using Cons.prems best lo by simp
    next
      case hi: False
      define k where "k = j2lenget j2len j + 1"
      have kb: "k + alo \<le> i + 1 \<and> k + blo \<le> j + 1"
        using j2lenget_bound[OF assms(1) assms(2), of j] lo by (simp add: k_def)
      have m': "prev_ok alo blo (i + 1) (newj2len(j \<mapsto> k))"
        using Cons.prems(1) kb unfolding prev_ok_def by auto
      have b': "best_ok alo ahi blo bhi (i + 1 - k, j + 1 - k, k)"
        using kb hi assms(3) unfolding best_ok_def by auto
      have step: "flm_inner i blo bhi j2len (j # js) (newj2len, bi, bj, bs) =
          flm_inner i blo bhi j2len js
            (newj2len(j \<mapsto> k), if k > bs then (i + 1 - k, j + 1 - k, k) else (bi, bj, bs))"
        using lo hi by (simp add: k_def Let_def)
      have "best_ok alo ahi blo bhi (if k > bs then (i + 1 - k, j + 1 - k, k) else (bi, bj, bs))"
        using b' Cons.prems(2) best by simp
      from Cons.IH[OF m' this] show ?thesis
        unfolding best step .
    qed
  qed
qed

lemma flm_outer_bounds:
  "alo \<le> i \<Longrightarrow> prev_ok alo blo i m \<Longrightarrow> best_ok alo ahi blo bhi best \<Longrightarrow>
   best_ok alo ahi blo bhi (snd (flm_outer a b blo bhi [i..<ahi] (m, best)))"
proof (induction "ahi - i" arbitrary: i m best)
  case 0
  then show ?case by simp
next
  case (Suc n)
  then have lt: "i < ahi" by simp
  let ?st = "flm_inner i blo bhi m (b2j b (a ! i)) (Map.empty, best)"
  have e: "prev_ok alo blo (i + 1) Map.empty" by (simp add: prev_ok_def)
  from flm_inner_bounds[OF Suc.prems(2) Suc.prems(1) lt e Suc.prems(3)]
  have st: "prev_ok alo blo (i + 1) (fst ?st)" "best_ok alo ahi blo bhi (snd ?st)"
    by auto
  have "best_ok alo ahi blo bhi (snd (flm_outer a b blo bhi [Suc i..<ahi] (fst ?st, snd ?st)))"
    using Suc.hyps(1)[of "Suc i" "fst ?st" "snd ?st"] Suc.hyps(2) Suc.prems(1) st by simp
  then show ?case using lt by (simp add: upt_rec[of i ahi])
qed

lemma extend_left_bounds:
  "best_ok alo ahi blo bhi best \<Longrightarrow> best_ok alo ahi blo bhi (extend_left P a b alo blo best)"
proof (induction P a b alo blo best rule: extend_left.induct)
  case (1 P a b alo blo besti bestj bestsize)
  show ?case
  proof (cases "besti > alo \<and> bestj > blo \<and> P (b ! (bestj - 1)) \<and> a ! (besti - 1) = b ! (bestj - 1)")
    case True
    have "best_ok alo ahi blo bhi (besti - 1, bestj - 1, bestsize + 1)"
      using "1.prems" True unfolding best_ok_def by auto
    from "1.IH"[OF True this] show ?thesis
      using True by (subst extend_left.simps) simp
  next
    case False
    then show ?thesis using "1.prems" by (subst extend_left.simps) auto
  qed
qed

lemma extend_right_bounds:
  "best_ok alo ahi blo bhi best \<Longrightarrow> best_ok alo ahi blo bhi (extend_right P a b ahi bhi best)"
proof (induction P a b ahi bhi best rule: extend_right.induct)
  case (1 P a b ahi bhi besti bestj bestsize)
  show ?case
  proof (cases "besti + bestsize < ahi \<and> bestj + bestsize < bhi \<and> P (b ! (bestj + bestsize)) \<and>
         a ! (besti + bestsize) = b ! (bestj + bestsize)")
    case True
    have "best_ok alo ahi blo bhi (besti, bestj, bestsize + 1)"
      using "1.prems" True unfolding best_ok_def by auto
    from "1.IH"[OF True this] show ?thesis
      using True by (subst extend_right.simps) simp
  next
    case False
    then show ?thesis using "1.prems" by (subst extend_right.simps) auto
  qed
qed

lemma find_longest_match_ok:
  "best_ok alo ahi blo bhi (find_longest_match a b alo ahi blo bhi)"
proof -
  have 0: "best_ok alo ahi blo bhi (alo, blo, 0)" by (simp add: best_ok_def)
  have e: "prev_ok alo blo alo Map.empty" by (simp add: prev_ok_def)
  show ?thesis
    unfolding find_longest_match_def Let_def
    by (intro extend_right_bounds extend_left_bounds flm_outer_bounds[OF le_refl e 0])
qed

lemma find_longest_match_bounds:
  assumes "find_longest_match a b alo ahi blo bhi = (i, j, k)" "k \<noteq> 0"
  shows "alo \<le> i \<and> i + k \<le> ahi \<and> blo \<le> j \<and> j + k \<le> bhi"
  using find_longest_match_ok[of alo ahi blo bhi a b] assms by (simp add: best_ok_def)

text \<open>
  \<open>get_matching_blocks\<close>: the \<^verbatim>\<open>while queue\<close> loop. The head of the list is the
  element that \<open>queue.pop()\<close> takes, so the region pushed last comes first.
\<close>

function matching_loop ::
  "'a list \<Rightarrow> 'a list \<Rightarrow> (nat \<times> nat \<times> nat \<times> nat) list \<Rightarrow> (nat \<times> nat \<times> nat) list \<Rightarrow>
   (nat \<times> nat \<times> nat) list" where
  "matching_loop a b [] matching_blocks = matching_blocks"
| "matching_loop a b ((alo, ahi, blo, bhi) # queue) matching_blocks =
     (case find_longest_match a b alo ahi blo bhi of
        (i, j, k) \<Rightarrow>
          if k \<noteq> 0 then
            matching_loop a b
              ((if i + k < ahi \<and> j + k < bhi then [(i + k, ahi, j + k, bhi)] else []) @
               (if alo < i \<and> blo < j then [(alo, i, blo, j)] else []) @ queue)
              (matching_blocks @ [(i, j, k)])
          else matching_loop a b queue matching_blocks)"
  by pat_completeness auto
termination
proof (relation "measure (\<lambda>(a, b, queue, blocks).
          sum_list (map (\<lambda>(alo, ahi, blo, bhi). 2 * (ahi - alo) + 1) queue))", goal_cases)
  case 1
  then show ?case by simp
next
  case (2 a b alo ahi blo bhi queue matching_blocks i r j k)
  then have f: "find_longest_match a b alo ahi blo bhi = (i, j, k)" and k: "k \<noteq> 0"
    by simp_all
  from find_longest_match_bounds[OF f k]
  have "alo \<le> i" "i + k \<le> ahi" by simp_all
  then show ?case using k by auto
next
  case 3
  then show ?case by simp
qed

declare matching_loop.simps [simp del]

text \<open>The loop that merges adjacent blocks; the state is \<open>(i1, j1, k1)\<close> and \<open>non_adjacent\<close>.\<close>

fun non_adjacent_loop ::
  "(nat \<times> nat \<times> nat) list \<Rightarrow> nat \<times> nat \<times> nat \<Rightarrow> (nat \<times> nat \<times> nat) list \<Rightarrow>
   (nat \<times> nat \<times> nat) list" where
  "non_adjacent_loop [] (i1, j1, k1) non_adjacent =
     (if k1 \<noteq> 0 then non_adjacent @ [(i1, j1, k1)] else non_adjacent)"
| "non_adjacent_loop ((i2, j2, k2) # rest) (i1, j1, k1) non_adjacent =
     (if i1 + k1 = i2 \<and> j1 + k1 = j2
      then non_adjacent_loop rest (i1, j1, k1 + k2) non_adjacent
      else non_adjacent_loop rest (i2, j2, k2)
             (if k1 \<noteq> 0 then non_adjacent @ [(i1, j1, k1)] else non_adjacent))"

definition get_matching_blocks :: "'a list \<Rightarrow> 'a list \<Rightarrow> (nat \<times> nat \<times> nat) list" where
  "get_matching_blocks a b =
     (let la = length a; lb = length b;
          matching_blocks = sort (matching_loop a b [(0, la, 0, lb)] []);
          non_adjacent = non_adjacent_loop matching_blocks (0, 0, 0) []
      in non_adjacent @ [(la, lb, 0)])"

text \<open>
  \<open>_calculate_ratio\<close>: \<^verbatim>\<open>2.0 * matches / length\<close> when \<open>length\<close> is not zero, else
  \<open>1.0\<close>. The quotient is kept exact.
\<close>

definition calculate_ratio :: "nat \<Rightarrow> nat \<Rightarrow> rat" where
  "calculate_ratio matches len = (if len \<noteq> 0 then 2 * of_nat matches / of_nat len else 1)"

text \<open>\<open>ratio\<close>: the sum of the sizes of the matching blocks, then \<open>_calculate_ratio\<close>.\<close>

definition matches :: "'a list \<Rightarrow> 'a list \<Rightarrow> nat" where
  "matches a b = sum_list (map (\<lambda>(i, j, k). k) (get_matching_blocks a b))"

definition ratio :: "'a list \<Rightarrow> 'a list \<Rightarrow> rat" where
  "ratio a b = calculate_ratio (matches a b) (length a + length b)"

section \<open>Filters and search\<close>

text \<open>
  The \<open>argparse\<close> namespace of the \<open>search\<close> command. An option that was not given
  is \<open>None\<close>; \<open>--limit\<close> and \<open>--threshold\<close> have defaults (20 and 0.4), so \<open>limit\<close> is
  always an integer.
\<close>

record args =
  arg_ext :: "string option"
  arg_tag :: "string option"
  arg_min_size :: "int option"
  arg_max_size :: "int option"
  arg_after :: "string option"
  arg_before :: "string option"
  arg_limit :: int
  arg_threshold :: "rat option"

text \<open>
  The bound \<open>t\<close> of the \<open>--before\<close> filter is a timestamp or \<^verbatim>\<open>float('inf')\<close>;
  \<open>mtime > t\<close> is false for the latter.
\<close>

datatype bound = Fin rat | PosInf

fun gt_bound :: "rat \<Rightarrow> bound \<Rightarrow> bool" where
  "gt_bound m (Fin t) = (m > t)"
| "gt_bound m PosInf = False"

text \<open>
  \<open>aplica_filtros\<close>. The parameter \<open>ts\<close> stands for
  \<^verbatim>\<open>datetime.fromisoformat(s).timestamp()\<close>: \<open>None\<close> when it raises. Each test
  \<^verbatim>\<open>if args.x and ...\<close> starts with the truth value of the option: \<open>None\<close>, the empty
  string and the number 0 are false.
\<close>

definition aplica_filtros :: "(string \<Rightarrow> rat option) \<Rightarrow> archivo \<Rightarrow> args \<Rightarrow> db \<Rightarrow> bool" where
  "aplica_filtros ts row args conn =
     (if (case arg_ext args of None \<Rightarrow> False
          | Some e \<Rightarrow> e \<noteq> [] \<and> row_ext row \<noteq> lower (lstrip_dot e)) then False
      else if (case arg_tag args of None \<Rightarrow> False
          | Some t \<Rightarrow> t \<noteq> [] \<and> t \<notin> set (get_tags_for (row_path row) conn)) then False
      else if (case arg_min_size args of None \<Rightarrow> False
          | Some n \<Rightarrow> n \<noteq> 0 \<and> row_size row < n) then False
      else if (case arg_max_size args of None \<Rightarrow> False
          | Some n \<Rightarrow> n \<noteq> 0 \<and> row_size row > n) then False
      else if (case arg_after args of None \<Rightarrow> False
          | Some s \<Rightarrow> s \<noteq> [] \<and>
              row_mtime row < (case ts s of Some t \<Rightarrow> t | None \<Rightarrow> 0)) then False
      else if (case arg_before args of None \<Rightarrow> False
          | Some s \<Rightarrow> s \<noteq> [] \<and>
              gt_bound (row_mtime row) (case ts s of Some t \<Rightarrow> Fin t | None \<Rightarrow> PosInf)) then False
      else True)"

definition score_nombre :: "string \<Rightarrow> string \<Rightarrow> rat" where
  "score_nombre query name = ratio (lower query) (lower name)"

text \<open>A tuple of \<open>resultados\<close>: \<open>(score, path, name, ext, size, mtime, tags)\<close>.\<close>

record resultado =
  r_score :: rat
  r_path :: string
  r_name :: string
  r_ext :: string
  r_size :: int
  r_mtime :: rat
  r_tags :: "string list"

text \<open>
  The score of a row, lines 152 to 157 of \<open>buscar\<close>: the largest of the name score,
  the path score and the tag score.
\<close>

definition score :: "string \<Rightarrow> archivo \<Rightarrow> db \<Rightarrow> rat" where
  "score query row conn =
     (let sc_name = score_nombre query (row_name row);
          sc_path = score_nombre query (row_path row);
          tags = get_tags_for (row_path row) conn;
          sc_tag = (if query \<in> set tags then 1 else 0)
      in max sc_name (max sc_path sc_tag))"

text \<open>\<^verbatim>\<open>args.threshold or 0.4\<close>: the value 0.4 replaces \<open>None\<close> and 0.0.\<close>

definition threshold_or :: "args \<Rightarrow> rat" where
  "threshold_or args =
     (case arg_threshold args of None \<Rightarrow> 4 / 10 | Some t \<Rightarrow> if t = 0 then 4 / 10 else t)"

definition mk_resultado :: "string \<Rightarrow> archivo \<Rightarrow> db \<Rightarrow> resultado" where
  "mk_resultado query row conn =
     \<lparr>r_score = score query row conn, r_path = row_path row, r_name = row_name row,
      r_ext = row_ext row, r_size = row_size row, r_mtime = row_mtime row,
      r_tags = get_tags_for (row_path row) conn\<rparr>"

text \<open>The loop \<^verbatim>\<open>for row in rows\<close> of \<open>buscar\<close>; the state is \<open>resultados\<close>.\<close>

fun buscar_loop ::
  "(string \<Rightarrow> rat option) \<Rightarrow> string \<Rightarrow> args \<Rightarrow> db \<Rightarrow> archivo list \<Rightarrow> resultado list \<Rightarrow>
   resultado list" where
  "buscar_loop ts query args conn [] resultados = resultados"
| "buscar_loop ts query args conn (row # rows) resultados =
     (if \<not> aplica_filtros ts row args conn
      then buscar_loop ts query args conn rows resultados
      else if score query row conn \<ge> threshold_or args
      then buscar_loop ts query args conn rows (resultados @ [mk_resultado query row conn])
      else buscar_loop ts query args conn rows resultados)"

text \<open>
  \<^verbatim>\<open>resultados.sort(key=lambda x: x[0], reverse=True)\<close>: descending in the score,
  and stable, as Python's sort is with \<open>reverse=True\<close> too.
\<close>

definition sort_resultados :: "resultado list \<Rightarrow> resultado list" where
  "sort_resultados resultados = sort_key (\<lambda>x. - r_score x) resultados"

text \<open>
  The slice \<^verbatim>\<open>xs[:n]\<close>: the first \<open>n\<close> elements, and for a negative \<open>n\<close> all but the
  last \<open>-n\<close>.
\<close>

definition slice_to :: "int \<Rightarrow> 'a list \<Rightarrow> 'a list" where
  "slice_to n xs = (if 0 \<le> n then take (nat n) xs else take (length xs - nat (- n)) xs)"

text \<open>
  \<open>buscar\<close> returns the results it prints, in the order printed. With no result it
  prints \<^verbatim>\<open>No se encontraron resultados.\<close> and shows nothing.
\<close>

definition buscar :: "(string \<Rightarrow> rat option) \<Rightarrow> string \<Rightarrow> args \<Rightarrow> db \<Rightarrow> resultado list" where
  "buscar ts query args conn =
     (let rows = archivos conn;
          resultados = sort_resultados (buscar_loop ts query args conn rows [])
      in if resultados = [] then [] else slice_to (arg_limit args) resultados)"

subsection \<open>\<open>list_tags\<close>\<close>

text \<open>
  \<^verbatim>\<open>SELECT tag, COUNT(*) FROM tags GROUP BY tag ORDER BY COUNT(*) DESC\<close>.
  \<open>tag_groups\<close> is the grouping: one row for every tag of the table, with the number
  of rows that carry it. SQL orders the groups by the count alone, and says nothing of
  the order of two groups with the same count. \<open>list_tags_rows conn rows\<close> holds when
  \<open>rows\<close> is a result the query may give: the groups, each once, in an order that is
  descending in the count.
\<close>

definition tag_groups :: "db \<Rightarrow> (string \<times> nat) list" where
  "tag_groups conn =
     map (\<lambda>t. (t, length (filter (\<lambda>(fp, t'). t' = t) (tags conn))))
       (remdups (map snd (tags conn)))"

definition list_tags_rows :: "db \<Rightarrow> (string \<times> nat) list \<Rightarrow> bool" where
  "list_tags_rows conn rows =
     (distinct rows \<and> set rows = set (tag_groups conn) \<and>
      sorted_wrt (\<lambda>x y. snd x \<ge> snd y) rows)"

text \<open>What \<open>list_tags\<close> prints for the rows fetched.\<close>

definition list_tags :: "(string \<times> nat) list \<Rightarrow> salida list" where
  "list_tags rows = (if rows = [] then [NoHayTags] else map (\<lambda>(tag, cnt). TagCuenta tag cnt) rows)"

text \<open>
  The order the specification asks of \<open>tagCounts\<close>: descending in the count, and
  ascending in the tag among equal counts.
\<close>

definition count_desc_tag_asc :: "(string \<times> nat) list \<Rightarrow> bool" where
  "count_desc_tag_asc rows =
     sorted_wrt (\<lambda>x y. snd x > snd y \<or> (snd x = snd y \<and> fst x < fst y)) rows"

section \<open>Example data\<close>

text \<open>
  A file system whose only directory is \<open>/d\<close>, with three files, one of which cannot
  be read, and where a name of more than 255 characters is refused with \<open>ENAMETOOLONG\<close>;
  and a store with three indexed files and one tag. They serve to run the functions on
  concrete inputs.
\<close>

definition ejemplo_fs :: filesystem where
  "ejemplo_fs =
     \<lparr>fs_stat = (\<lambda>p. if p = ''/d'' then Inr \<lparr>st_size = 4096, st_mtime = 9\<rparr>
                     else if length p > 255 then Inl (OSError ENAMETOOLONG)
                     else Inl (OSError ENOENT)),
      fs_str = (\<lambda>p. p),
      fs_walk = (\<lambda>p. [\<lparr>e_path = ''/d/a.TXT'', e_name = ''a.TXT'', e_suffix = ''.TXT'',
                          e_stat = Some \<lparr>st_size = 10, st_mtime = 5\<rparr>\<rparr>,
                        \<lparr>e_path = ''/d/b'', e_name = ''b'', e_suffix = [],
                          e_stat = Some \<lparr>st_size = 0, st_mtime = 7\<rparr>\<rparr>,
                        \<lparr>e_path = ''/d/c'', e_name = ''c'', e_suffix = [], e_stat = None\<rparr>])\<rparr>"

definition ejemplo_xyz :: archivo where
  "ejemplo_xyz =
     \<lparr>row_id = 1, row_path = ''/d/xyz.log'', row_name = ''xyz.log'', row_ext = ''log'',
      row_size = 5, row_mtime = - 1\<rparr>"

definition ejemplo_reports :: archivo where
  "ejemplo_reports =
     \<lparr>row_id = 2, row_path = ''/d/reports_2023.txt'', row_name = ''reports_2023.txt'',
      row_ext = ''txt'', row_size = 10, row_mtime = 1700000000\<rparr>"

definition ejemplo_report :: archivo where
  "ejemplo_report =
     \<lparr>row_id = 3, row_path = ''/d/report.pdf'', row_name = ''report.pdf'', row_ext = ''pdf'',
      row_size = 2048, row_mtime = 1700000001\<rparr>"

definition ejemplo_db :: db where
  "ejemplo_db =
     \<lparr>archivos = [ejemplo_xyz, ejemplo_reports, ejemplo_report],
      tags = [(''/d/xyz.log'', ''trabajo'')]\<rparr>"

definition ejemplo_args :: args where
  "ejemplo_args =
     \<lparr>arg_ext = None, arg_tag = None, arg_min_size = None, arg_max_size = None,
      arg_after = None, arg_before = None, arg_limit = 20, arg_threshold = Some (4 / 10)\<rparr>"

definition ejemplo_tags :: "cmd list" where
  "ejemplo_tags = [TagAdd ''/d/a'' ''y'', TagAdd ''/d/a'' ''x'', TagAdd ''/d/b'' ''x'',
     TagAdd ''/d/c'' ''z'']"

section \<open>Properties of the matcher\<close>

text \<open>The number of matched elements: the sum of the sizes of a list of blocks.\<close>

definition size_sum :: "(nat \<times> nat \<times> nat) list \<Rightarrow> nat" where
  "size_sum blocks = sum_list (map (\<lambda>(i, j, k). k) blocks)"

lemma size_sum_simps [simp]:
  "size_sum [] = 0"
  "size_sum (x # xs) = snd (snd x) + size_sum xs"
  "size_sum (xs @ ys) = size_sum xs + size_sum ys"
  by (simp_all add: size_sum_def case_prod_beta)

text \<open>The total width of the regions of a queue, in \<open>a\<close> and in \<open>b\<close>.\<close>

definition span_a :: "(nat \<times> nat \<times> nat \<times> nat) list \<Rightarrow> nat" where
  "span_a queue = sum_list (map (\<lambda>(alo, ahi, blo, bhi). ahi - alo) queue)"

definition span_b :: "(nat \<times> nat \<times> nat \<times> nat) list \<Rightarrow> nat" where
  "span_b queue = sum_list (map (\<lambda>(alo, ahi, blo, bhi). bhi - blo) queue)"

lemma span_simps [simp]:
  "span_a [] = 0" "span_a ((alo, ahi, blo, bhi) # q) = (ahi - alo) + span_a q"
  "span_a (q @ q') = span_a q + span_a q'"
  "span_b [] = 0" "span_b ((alo, ahi, blo, bhi) # q) = (bhi - blo) + span_b q"
  "span_b (q @ q') = span_b q + span_b q'"
  by (simp_all add: span_a_def span_b_def)

lemma matching_loop_sum_a:
  "size_sum (matching_loop a b queue acc) \<le>
     size_sum acc + span_a queue"
proof (induction a b queue acc rule: matching_loop.induct)
  case (1 a b acc)
  show ?case by (simp add: matching_loop.simps)
next
  case (2 a b alo ahi blo bhi queue acc)
  obtain i j k where f: "find_longest_match a b alo ahi blo bhi = (i, j, k)"
    by (cases "find_longest_match a b alo ahi blo bhi") auto
  show ?case
  proof (cases "k = 0")
    case True
    have "size_sum (matching_loop a b queue acc) \<le>
       size_sum acc + span_a queue"
      using "2.IH"(2)[of i "(j, k)" j k] f True by simp
    then show ?thesis
      using f True by (subst matching_loop.simps) simp
  next
    case False
    from find_longest_match_bounds[OF f False]
    have b: "alo \<le> i" "i + k \<le> ahi" by simp_all
    let ?q = "(if i + k < ahi \<and> j + k < bhi then [(i + k, ahi, j + k, bhi)] else []) @
               (if alo < i \<and> blo < j then [(alo, i, blo, j)] else []) @ queue"
    have ih: "size_sum (matching_loop a b ?q (acc @ [(i, j, k)])) \<le>
       size_sum (acc @ [(i, j, k)]) + span_a ?q"
      using "2.IH"(1)[of i "(j, k)" j k] f False by simp
    have q: "span_a ?q + k \<le>
       (ahi - alo) + span_a queue"
      using b by auto
    have "matching_loop a b ((alo, ahi, blo, bhi) # queue) acc =
        matching_loop a b ?q (acc @ [(i, j, k)])"
      using f False by (subst matching_loop.simps) simp
    then show ?thesis using ih q by simp
  qed
qed

lemma matching_loop_sum_b:
  "size_sum (matching_loop a b queue acc) \<le>
     size_sum acc + span_b queue"
proof (induction a b queue acc rule: matching_loop.induct)
  case (1 a b acc)
  show ?case by (simp add: matching_loop.simps)
next
  case (2 a b alo ahi blo bhi queue acc)
  obtain i j k where f: "find_longest_match a b alo ahi blo bhi = (i, j, k)"
    by (cases "find_longest_match a b alo ahi blo bhi") auto
  show ?case
  proof (cases "k = 0")
    case True
    have "size_sum (matching_loop a b queue acc) \<le>
       size_sum acc + span_b queue"
      using "2.IH"(2)[of i "(j, k)" j k] f True by simp
    then show ?thesis
      using f True by (subst matching_loop.simps) simp
  next
    case False
    from find_longest_match_bounds[OF f False]
    have b: "blo \<le> j" "j + k \<le> bhi" by simp_all
    let ?q = "(if i + k < ahi \<and> j + k < bhi then [(i + k, ahi, j + k, bhi)] else []) @
               (if alo < i \<and> blo < j then [(alo, i, blo, j)] else []) @ queue"
    have ih: "size_sum (matching_loop a b ?q (acc @ [(i, j, k)])) \<le>
       size_sum (acc @ [(i, j, k)]) + span_b ?q"
      using "2.IH"(1)[of i "(j, k)" j k] f False by simp
    have q: "span_b ?q + k \<le>
       (bhi - blo) + span_b queue"
      using b by auto
    have "matching_loop a b ((alo, ahi, blo, bhi) # queue) acc =
        matching_loop a b ?q (acc @ [(i, j, k)])"
      using f False by (subst matching_loop.simps) simp
    then show ?thesis using ih q by simp
  qed
qed

lemma size_sum_insort: "size_sum (insort x xs) = snd (snd x) + size_sum xs"
  by (induction xs) auto

lemma size_sum_sort: "size_sum (sort xs) = size_sum xs"
  by (induction xs) (auto simp: size_sum_insort)

lemma non_adjacent_loop_sum:
  "size_sum (non_adjacent_loop rest (i1, j1, k1) acc) = size_sum acc + k1 + size_sum rest"
  by (induction rest "(i1, j1, k1)" acc arbitrary: i1 j1 k1 rule: non_adjacent_loop.induct) auto

lemma matches_eq: "matches a b = size_sum (matching_loop a b [(0, length a, 0, length b)] [])"
  by (simp add: matches_def get_matching_blocks_def Let_def non_adjacent_loop_sum size_sum_sort
      flip: size_sum_def)

lemma matches_le: "matches a b \<le> length a" "matches a b \<le> length b"
  using matching_loop_sum_a[of a b "[(0, length a, 0, length b)]" "[]"]
        matching_loop_sum_b[of a b "[(0, length a, 0, length b)]" "[]"]
  by (simp_all add: matches_eq)

lemma ratio_bounds: "0 \<le> ratio a b \<and> ratio a b \<le> 1"
proof -
  have "2 * matches a b \<le> length a + length b"
    using matches_le[of a b] by simp
  then have "(2 * of_nat (matches a b) :: rat) \<le> of_nat (length a + length b)"
    by (metis of_nat_le_iff of_nat_mult of_nat_numeral)
  then show ?thesis
    by (simp add: ratio_def calculate_ratio_def divide_le_eq_1 del: of_nat_add)
qed

subsection \<open>A sequence matched with itself\<close>

text \<open>
  When both sequences are \<open>s\<close>, the first pass of \<open>find_longest_match\<close> over the whole
  of \<open>s\<close> finds a block on the diagonal, also when popular elements were dropped from
  \<open>b2j\<close>. \<open>run_before s t\<close> is the number of consecutive elements that are not popular
  just before position \<open>t\<close>: the entry of \<open>j2len\<close> on the diagonal.
\<close>

fun run_before :: "'a list \<Rightarrow> nat \<Rightarrow> nat" where
  "run_before s 0 = 0"
| "run_before s (Suc t) = (if popular s (s ! t) then 0 else run_before s t + 1)"

declare run_before.simps [simp del]

definition j2val :: "(nat \<rightharpoonup> nat) \<Rightarrow> nat \<Rightarrow> nat" where
  "j2val m j = (case m j of None \<Rightarrow> 0 | Some v \<Rightarrow> v)"

lemma j2lenget_j2val: "j2lenget m j = (if j = 0 then 0 else j2val m (j - 1))"
  by (simp add: j2lenget_def j2val_def)

lemma j2val_upd: "j2val (m(a \<mapsto> v)) x = (if x = a then v else j2val m x)"
  by (simp add: j2val_def)

definition diag_prev :: "'a list \<Rightarrow> nat \<Rightarrow> (nat \<rightharpoonup> nat) \<Rightarrow> bool" where
  "diag_prev s i p =
     ((\<forall>j. j2lenget p j \<le> run_before s i \<and> j2lenget p j \<le> run_before s j) \<and>
      j2lenget p i = run_before s i)"

definition inner_inv ::
  "'a list \<Rightarrow> nat \<Rightarrow> nat list \<Rightarrow> (nat \<rightharpoonup> nat) \<times> nat \<times> nat \<times> nat \<Rightarrow> bool" where
  "inner_inv s i js st =
     (case st of (newm, bi, bj, bs) \<Rightarrow>
        bi = bj \<and> (\<forall>t\<le>i. run_before s t \<le> bs) \<and>
        (i \<notin> set js \<longrightarrow> run_before s (Suc i) \<le> bs \<and> j2val newm i = run_before s (Suc i)) \<and>
        (\<forall>j. j2val newm j \<le> run_before s (Suc i) \<and> j2val newm j \<le> run_before s (Suc j)))"

lemma flm_inner_diag:
  assumes prev: "diag_prev s i p"
  shows "sorted_wrt (<) js \<Longrightarrow>
         (\<forall>j\<in>set js. j < length s \<and> s ! j = s ! i \<and> \<not> popular s (s ! i)) \<Longrightarrow>
         inner_inv s i js st \<Longrightarrow>
         inner_inv s i [] (flm_inner i 0 (length s) p js st)"
proof (induction js arbitrary: st)
  case Nil
  then show ?case by simp
next
  case (Cons j js)
  obtain newm bi bj bs where st: "st = (newm, bi, bj, bs)" by (cases st) auto
  from Cons.prems(2) have jn: "j < length s" and eq: "s ! j = s ! i"
    and np: "\<not> popular s (s ! i)" by simp_all
  from Cons.prems(1) have sorted: "sorted_wrt (<) js" and gt: "\<forall>x\<in>set js. j < x"
    by simp_all
  from Cons.prems(3) have inv:
    "bi = bj" "\<forall>t\<le>i. run_before s t \<le> bs"
    "i \<notin> set (j # js) \<longrightarrow> run_before s (Suc i) \<le> bs \<and> j2val newm i = run_before s (Suc i)"
    "\<forall>j. j2val newm j \<le> run_before s (Suc i) \<and> j2val newm j \<le> run_before s (Suc j)"
    unfolding inner_inv_def st by simp_all
  define k where "k = j2lenget p j + 1"
  have ri: "run_before s (Suc i) = run_before s i + 1" using np by (simp add: run_before.simps)
  have rj: "run_before s (Suc j) = run_before s j + 1" using np eq by (simp add: run_before.simps)
  from prev have pj: "j2lenget p j \<le> run_before s i" "j2lenget p j \<le> run_before s j"
    and pi: "j2lenget p i = run_before s i"
    unfolding diag_prev_def by simp_all
  have ki: "k \<le> run_before s (Suc i)" and kj: "k \<le> run_before s (Suc j)"
    using pj ri rj by (simp_all add: k_def)
  have step: "flm_inner i 0 (length s) p (j # js) st =
      flm_inner i 0 (length s) p js
        (newm(j \<mapsto> k), if k > bs then (i + 1 - k, j + 1 - k, k) else (bi, bj, bs))"
    using jn unfolding st by (simp add: k_def Let_def)
  have no_upd: "k \<le> bs" if "j \<noteq> i"
  proof (cases "j < i")
    case True
    then have "Suc j \<le> i" by simp
    with inv(2) have "run_before s (Suc j) \<le> bs" by blast
    then show ?thesis using kj by (rule le_trans[rotated])
  next
    case False
    then have "i < j" using that by simp
    then have "i \<notin> set (j # js)" using gt by auto
    then have "run_before s (Suc i) \<le> bs" using inv(3) by blast
    then show ?thesis using ki by (rule le_trans[rotated])
  qed
  have keq: "k = run_before s (Suc i)" if "j = i"
    using that pi ri by (simp add: k_def)
  have "inner_inv s i js
      (newm(j \<mapsto> k), if k > bs then (i + 1 - k, j + 1 - k, k) else (bi, bj, bs))"
  proof (cases "j = i")
    case True
    show ?thesis
      unfolding inner_inv_def
      using True inv keq[OF True] ki kj
      by (auto simp: j2val_upd)
  next
    case False
    have nb: "\<not> k > bs" using no_upd[OF False] by simp
    show ?thesis
      unfolding inner_inv_def
      using False inv nb ki kj
      by (auto simp: j2val_upd)
  qed
  from Cons.IH[OF sorted _ this] Cons.prems(2) show ?case
    unfolding step by simp
qed


lemma b2j_props:
  "sorted_wrt (<) (b2j s c)"
  "\<forall>j\<in>set (b2j s c). j < length s \<and> s ! j = c \<and> \<not> popular s c"
  by (auto simp: b2j_def sorted_wrt_filter)

lemma b2j_mem: "i < length s \<Longrightarrow> \<not> popular s (s ! i) \<Longrightarrow> i \<in> set (b2j s (s ! i))"
  by (simp add: b2j_def)

lemma flm_row_diag:
  assumes prev: "diag_prev s i p" and i: "i < length s"
    and d: "bi = bj" and r: "\<forall>t\<le>i. run_before s t \<le> bs"
  shows "inner_inv s i [] (flm_inner i 0 (length s) p (b2j s (s ! i)) (Map.empty, bi, bj, bs))"
proof -
  have init: "inner_inv s i (b2j s (s ! i)) (Map.empty, bi, bj, bs)"
  proof (cases "popular s (s ! i)")
    case True
    then have "run_before s (Suc i) = 0" by (simp add: run_before.simps)
    then show ?thesis using d r by (simp add: inner_inv_def j2val_def)
  next
    case False
    then show ?thesis using d r b2j_mem[OF i False] by (simp add: inner_inv_def j2val_def)
  qed
  have "\<forall>j\<in>set (b2j s (s ! i)). j < length s \<and> s ! j = s ! i \<and> \<not> popular s (s ! i)"
    using b2j_props(2)[of s "s ! i"] by simp
  from flm_inner_diag[OF prev b2j_props(1) this init] show ?thesis .
qed

lemma inner_inv_next:
  assumes "inner_inv s i [] (newm, bi, bj, bs)"
  shows "diag_prev s (Suc i) newm \<and> bi = bj \<and> (\<forall>t\<le>Suc i. run_before s t \<le> bs)"
proof -
  from assms have inv: "bi = bj" "\<forall>t\<le>i. run_before s t \<le> bs"
    "run_before s (Suc i) \<le> bs" "j2val newm i = run_before s (Suc i)"
    "\<forall>j. j2val newm j \<le> run_before s (Suc i) \<and> j2val newm j \<le> run_before s (Suc j)"
    unfolding inner_inv_def by simp_all
  have "j2lenget newm j \<le> run_before s (Suc i) \<and> j2lenget newm j \<le> run_before s j" for j
  proof (cases j)
    case 0
    then show ?thesis by (simp add: j2lenget_j2val)
  next
    case (Suc j')
    then show ?thesis using inv(5) by (simp add: j2lenget_j2val)
  qed
  moreover have "j2lenget newm (Suc i) = run_before s (Suc i)"
    using inv(4) by (simp add: j2lenget_j2val)
  moreover have "\<forall>t\<le>Suc i. run_before s t \<le> bs"
    using inv(2,3) by (auto simp: le_Suc_eq)
  ultimately show ?thesis using inv(1) unfolding diag_prev_def by blast
qed

lemma flm_outer_diag:
  "i \<le> length s \<Longrightarrow> diag_prev s i m \<Longrightarrow> bi = bj \<Longrightarrow> \<forall>t\<le>i. run_before s t \<le> bs \<Longrightarrow>
   fst (snd (flm_outer s s 0 (length s) [i..<length s] (m, bi, bj, bs))) =
   fst (snd (snd (flm_outer s s 0 (length s) [i..<length s] (m, bi, bj, bs))))"
proof (induction "length s - i" arbitrary: i m bi bj bs)
  case 0
  then show ?case by simp
next
  case (Suc n)
  then have lt: "i < length s" by simp
  obtain newm bi' bj' bs' where
    st: "flm_inner i 0 (length s) m (b2j s (s ! i)) (Map.empty, bi, bj, bs) = (newm, bi', bj', bs')"
    by (cases "flm_inner i 0 (length s) m (b2j s (s ! i)) (Map.empty, bi, bj, bs)") auto
  from flm_row_diag[OF Suc.prems(2) lt Suc.prems(3) Suc.prems(4)]
  have "inner_inv s i [] (newm, bi', bj', bs')" unfolding st .
  from inner_inv_next[OF this]
  have nx: "diag_prev s (Suc i) newm" "bi' = bj'" "\<forall>t\<le>Suc i. run_before s t \<le> bs'"
    by simp_all
  have n: "n = length s - Suc i" using Suc.hyps(2) by simp
  have "Suc i \<le> length s" using lt by simp
  from Suc.hyps(1)[OF n this nx]
  show ?case using lt st by (simp add: upt_rec[of i "length s"])
qed

lemma extend_left_same:
  "extend_left (\<lambda>x. \<not> isbjunk x) s s 0 0 (d, d, bs) = (0, 0, bs + d)"
proof (induction d arbitrary: bs)
  case 0
  show ?case by (subst extend_left.simps) simp
next
  case (Suc d)
  show ?case using Suc[of "bs + 1"]
    by (subst extend_left.simps) (simp add: isbjunk_def)
qed

lemma extend_right_same:
  "m \<le> n \<Longrightarrow> extend_right (\<lambda>x. \<not> isbjunk x) s s n n (0, 0, m) = (0, 0, n)"
proof (induction "n - m" arbitrary: m)
  case 0
  then show ?case by (subst extend_right.simps) simp
next
  case (Suc x)
  then have "extend_right (\<lambda>x. \<not> isbjunk x) s s n n (0, 0, m + 1) = (0, 0, n)"
    by simp
  moreover have "m < n" using Suc.hyps(2) by simp
  ultimately show ?case
    by (subst extend_right.simps) (simp add: isbjunk_def)
qed

lemma extend_left_junk: "extend_left isbjunk a b alo blo best = best"
proof -
  obtain i j k where b: "best = (i, j, k)" by (cases best) auto
  show ?thesis unfolding b by (subst extend_left.simps) (simp add: isbjunk_def)
qed

lemma extend_right_junk: "extend_right isbjunk a b ahi bhi best = best"
proof -
  obtain i j k where b: "best = (i, j, k)" by (cases best) auto
  show ?thesis unfolding b by (subst extend_right.simps) (simp add: isbjunk_def)
qed

lemma find_longest_match_same:
  "find_longest_match s s 0 (length s) 0 (length s) = (0, 0, length s)"
proof -
  let ?n = "length s"
  obtain m d e bs where
    o: "flm_outer s s 0 ?n [0..<?n] (Map.empty, 0, 0, 0) = (m, d, e, bs)"
    by (cases "flm_outer s s 0 ?n [0..<?n] (Map.empty, 0, 0, 0)") auto
  have dp: "diag_prev s 0 Map.empty"
    by (simp add: diag_prev_def j2lenget_def run_before.simps)
  have "\<forall>t\<le>0. run_before s t \<le> (0::nat)" by (simp add: run_before.simps)
  from flm_outer_diag[of 0 s Map.empty 0 0 0, OF _ dp refl this] have de: "d = e"
    unfolding o by simp
  have e: "prev_ok 0 0 0 Map.empty" by (simp add: prev_ok_def)
  have "best_ok 0 ?n 0 ?n (snd (flm_outer s s 0 ?n [0..<?n] (Map.empty, 0, 0, 0)))"
    by (rule flm_outer_bounds[OF le_refl e]) (simp add: best_ok_def)
  then have le: "bs + d \<le> ?n" using o by (auto simp: best_ok_def)
  show ?thesis
    unfolding find_longest_match_def Let_def o snd_conv de[symmetric]
    by (simp add: extend_left_same extend_right_same[OF le] extend_left_junk extend_right_junk)
qed

lemma matches_same: "matches s s = length s"
proof (cases "s = []")
  case True
  then show ?thesis
    by (simp add: matches_eq matching_loop.simps find_longest_match_same[of "[]", simplified])
next
  case False
  then show ?thesis
    by (simp add: matches_eq matching_loop.simps find_longest_match_same)
qed

lemma ratio_same: "ratio s s = 1"
  by (simp add: ratio_def calculate_ratio_def matches_same)

section \<open>The store\<close>

lemma insert_or_replace_distinct:
  "distinct (map row_path rows) \<Longrightarrow> distinct (map row_path (insert_or_replace v rows))"
  by (cases v) (auto simp: insert_or_replace_def distinct_map_filter)

lemma indexar_loop_distinct:
  "distinct (map row_path (fst st)) \<Longrightarrow>
   distinct (map row_path (fst (indexar_loop verbose ps st)))"
proof (induction verbose ps st rule: indexar_loop.induct)
  case (1 verbose st)
  then show ?case by simp
next
  case (2 verbose p ps rows contador out)
  then show ?case
    by (cases "e_stat p") (simp_all add: Let_def insert_or_replace_distinct)
qed

lemma exec_distinct:
  "distinct (map row_path (archivos conn)) \<Longrightarrow> distinct (map row_path (archivos (exec conn c)))"
proof (cases c)
  case (Index fs ruta verbose)
  assume d: "distinct (map row_path (archivos conn))"
  show ?thesis
    using indexar_loop_distinct[of "(archivos conn, 0, [])" verbose "fs_walk fs ruta"] d
    unfolding Index by (auto simp: indexar_def split: prod.splits sum.splits)
qed (simp_all add: tag_add_def tag_remove_def)

lemma foldl_exec_distinct:
  "distinct (map row_path (archivos conn)) \<Longrightarrow>
   distinct (map row_path (archivos (foldl exec conn cmds)))"
  by (induction cmds arbitrary: conn) (simp_all add: exec_distinct)

lemma run_distinct: "distinct (map row_path (archivos (run cmds)))"
  unfolding run_def by (rule foldl_exec_distinct) (simp add: db_connect_def)

lemma filter_other_paths:
  "p \<notin> row_path ` set rows \<Longrightarrow> filter (\<lambda>r. row_path r \<noteq> p) rows = rows"
  by (rule filter_True) auto

lemma filter_path_length:
  "distinct (map row_path rows) \<Longrightarrow> p \<in> set (map row_path rows) \<Longrightarrow>
   Suc (length (filter (\<lambda>r. row_path r \<noteq> p) rows)) = length rows"
  by (induction rows) (auto simp: filter_other_paths)

text \<open>The run of the example: the directory is indexed twice.\<close>

lemma ejemplo_run:
  "archivos (run [Index ejemplo_fs ''/d'' False, Index ejemplo_fs ''/d'' False]) =
     [\<lparr>row_id = 3, row_path = ''/d/a.TXT'', row_name = ''a.TXT'', row_ext = ''txt'',
       row_size = 10, row_mtime = 5\<rparr>,
      \<lparr>row_id = 4, row_path = ''/d/b'', row_name = ''b'', row_ext = [],
       row_size = 0, row_mtime = 7\<rparr>]"
  by code_simp

text \<open>
  Claim C4. In every store that a run of the program reaches there is at most one row
  of \<open>archivos\<close> for a path, and every further command keeps it so. Writing a row whose
  path is already there replaces the old row: the table keeps its number of rows, and the
  only row with that path is the new one.
\<close>

theorem one_record_per_path:
  "distinct (map row_path (archivos (run cmds))) \<and>
   distinct (map row_path (archivos (exec (run cmds) c))) \<and>
   distinct (map row_path (insert_or_replace (p, n, e, s, m) (archivos (run cmds)))) \<and>
   (p \<in> set (map row_path (archivos (run cmds))) \<longrightarrow>
      length (insert_or_replace (p, n, e, s, m) (archivos (run cmds))) =
        length (archivos (run cmds)) \<and>
      filter (\<lambda>r. row_path r = p) (insert_or_replace (p, n, e, s, m) (archivos (run cmds))) =
        [\<lparr>row_id = next_rowid (archivos (run cmds)), row_path = p, row_name = n, row_ext = e,
          row_size = s, row_mtime = m\<rparr>])"
proof -
  have d: "distinct (map row_path (archivos (run cmds)))" by (rule run_distinct)
  have f: "filter (\<lambda>r. row_path r = p) (filter (\<lambda>r. row_path r \<noteq> p) rows) = []" for rows
    by (induction rows) auto
  show ?thesis
    using d exec_distinct[OF d] insert_or_replace_distinct[OF d] filter_path_length[OF d]
    by (auto simp: insert_or_replace_def f)
qed

theorem one_record_per_path_witness:
  "map row_path (archivos (run [Index ejemplo_fs ''/d'' False, Index ejemplo_fs ''/d'' False])) =
     [''/d/a.TXT'', ''/d/b''] \<and>
   ''/d/b'' \<in> set (map row_path
      (archivos (run [Index ejemplo_fs ''/d'' False, Index ejemplo_fs ''/d'' False]))) \<and>
   length (insert_or_replace (''/d/b'', ''b'', [], 1, 8)
      (archivos (run [Index ejemplo_fs ''/d'' False, Index ejemplo_fs ''/d'' False]))) = 2"
  using one_record_per_path
    [of "[Index ejemplo_fs ''/d'' False, Index ejemplo_fs ''/d'' False]"
        "TagAdd ''/d/b'' ''x''" "''/d/b''" "''b''" "[]" 1 8]
  by (simp add: ejemplo_run)

text \<open>
  Claim C7. For every path \<open>p\<close> and tag \<open>t\<close>, \<open>tag_add\<close> is idempotent: a second call
  changes nothing, and on a table that respects \<^verbatim>\<open>UNIQUE(file_path, tag)\<close> the pair
  \<open>(p, t)\<close> is there exactly once after one call and after two. \<open>tag_remove\<close> of a pair
  that is not in the table leaves the store as it was. Neither function has a branch that
  raises: both return the store and the line they print.
\<close>

theorem tag_add_idempotent_remove_absent:
  "tag_add p t (fst (tag_add p t conn)) = tag_add p t conn \<and>
   (distinct (tags conn) \<longrightarrow>
      count_list (tags (fst (tag_add p t conn))) (p, t) = 1 \<and>
      count_list (tags (fst (tag_add p t (fst (tag_add p t conn))))) (p, t) = 1 \<and>
      distinct (tags (fst (tag_add p t conn)))) \<and>
   ((p, t) \<notin> set (tags conn) \<longrightarrow> fst (tag_remove p t conn) = conn)"
proof -
  have cl: "distinct xs \<Longrightarrow> x \<in> set xs \<Longrightarrow> count_list xs x = 1" for xs :: "(string \<times> string) list" and x
    by (induction xs) auto
  have "(p, t) \<notin> set xs \<Longrightarrow> filter (\<lambda>(fp, t'). \<not> (fp = p \<and> t' = t)) xs = xs"
    for xs :: "(string \<times> string) list"
    by (rule filter_True) auto
  then have fl: "(p, t) \<notin> set (tags conn) \<Longrightarrow> fst (tag_remove p t conn) = conn"
    unfolding tag_remove_def by simp
  show ?thesis
    using fl by (auto simp: tag_add_def cl)
qed

theorem tag_add_idempotent_remove_absent_witness:
  "fst (tag_add ''/d/a'' ''x'' (fst (tag_add ''/d/a'' ''x'' db_connect))) =
     \<lparr>archivos = [], tags = [(''/d/a'', ''x'')]\<rparr> \<and>
   count_list (tags (fst (tag_add ''/d/a'' ''x'' (fst (tag_add ''/d/a'' ''x'' db_connect)))))
     (''/d/a'', ''x'') = 1 \<and>
   fst (tag_remove ''/d/a'' ''x'' db_connect) = db_connect"
  using tag_add_idempotent_remove_absent [of "''/d/a''" "''x''" db_connect]
  by (simp add: db_connect_def tag_add_def)

lemma indexar_ruta_no_existe:
  "path_exists fs ruta = Inr False \<Longrightarrow>
   indexar fs ruta conn verbose = Inr (conn, [RutaNoExiste (fs_str fs ruta)])"
  by (simp add: indexar_def)

lemma indexar_raises_unchanged:
  "indexar fs ruta conn verbose = Inl e \<Longrightarrow> exec conn (Index fs ruta verbose) = conn"
  by simp

text \<open>
  Claim C8 at a root that does not exist and whose name has 300 characters: \<open>stat\<close>
  fails with \<open>ENAMETOOLONG\<close>, which \<open>Path.exists\<close> raises again and nothing catches, so
  \<open>indexar\<close> ends with the exception and prints no message. No row is written: the
  store after the command is the store before it. A missing root with a short name,
  for which \<open>stat\<close> fails with \<open>ENOENT\<close>, gets the message.
\<close>

theorem indexar_root_name_too_long:
  "fs_stat ejemplo_fs (replicate 300 CHR ''a'') = Inl (OSError ENAMETOOLONG) \<and>
   indexar ejemplo_fs (replicate 300 CHR ''a'') ejemplo_db False = Inl (OSError ENAMETOOLONG) \<and>
   exec ejemplo_db (Index ejemplo_fs (replicate 300 CHR ''a'') False) = ejemplo_db \<and>
   indexar ejemplo_fs ''/nada'' ejemplo_db False = Inr (ejemplo_db, [RutaNoExiste ''/nada''])"
proof -
  have 1: "fs_stat ejemplo_fs (replicate 300 CHR ''a'') = Inl (OSError ENAMETOOLONG)"
    by code_simp
  then have 2: "indexar ejemplo_fs (replicate 300 CHR ''a'') ejemplo_db False =
      Inl (OSError ENAMETOOLONG)"
    by (simp add: indexar_def path_exists_def ignore_error_def)
  have "path_exists ejemplo_fs ''/nada'' = Inr False"
    by (simp add: ejemplo_fs_def path_exists_def ignore_error_def)
  then have 3: "indexar ejemplo_fs ''/nada'' ejemplo_db False =
      Inr (ejemplo_db, [RutaNoExiste ''/nada''])"
    by (simp add: indexar_ruta_no_existe ejemplo_fs_def)
  show ?thesis using 1 2 3 indexar_raises_unchanged[OF 2] by simp
qed

section \<open>The score\<close>

lemma lower_char_idem: "lower_char (lower_char c) = lower_char c"
  by (auto simp: lower_char_def Let_def)

lemma lower_idem: "lower (lower s) = lower s"
  by (simp add: lower_def lower_char_idem)

lemma score_nombre_bounds: "0 \<le> score_nombre x y \<and> score_nombre x y \<le> 1"
  unfolding score_nombre_def by (rule ratio_bounds)

text \<open>
  Claim C3 says that for every pair of strings the score is twice the number of matched
  characters divided by the sum of the lengths. For two empty strings that sum is zero,
  and \<open>_calculate_ratio\<close> returns 1.0.
\<close>

theorem score_nombre_empty_counterexample:
  "score_nombre [] [] = 1 \<and>
   length (lower []) + length (lower []) = 0 \<and>
   score_nombre [] [] \<noteq>
     2 * of_nat (matches (lower []) (lower [])) / of_nat (length (lower []) + length (lower []))"
  by (simp add: score_nombre_def ratio_def calculate_ratio_def lower_def)

text \<open>
  Claim C3, amended. For every pair of strings the score lies between 0 and 1. When at
  least one of the strings is not empty it is twice the number of matched characters of
  the lower-cased strings divided by the sum of the lengths, and it is 1 when both are
  empty. The score of a string against itself is 1, and the score does not change when
  an argument is replaced by a string with the same lower-casing, in particular by its
  lower-casing.
\<close>

theorem score_nombre_ratio:
  "0 \<le> score_nombre x y \<and> score_nombre x y \<le> 1 \<and>
   (x \<noteq> [] \<or> y \<noteq> [] \<longrightarrow>
      score_nombre x y =
        2 * of_nat (matches (lower x) (lower y)) / of_nat (length x + length y)) \<and>
   (x = [] \<and> y = [] \<longrightarrow> score_nombre x y = 1) \<and>
   score_nombre x x = 1 \<and>
   (lower x' = lower x \<and> lower y' = lower y \<longrightarrow> score_nombre x' y' = score_nombre x y) \<and>
   score_nombre (lower x) y = score_nombre x y \<and>
   score_nombre x (lower y) = score_nombre x y"
proof -
  have len: "length (lower x) + length (lower y) = length x + length y"
    by (simp add: lower_def)
  have "score_nombre x y =
        2 * of_nat (matches (lower x) (lower y)) / of_nat (length x + length y)"
    if "x \<noteq> [] \<or> y \<noteq> []"
    using that unfolding score_nombre_def ratio_def calculate_ratio_def len by auto
  moreover have "score_nombre x y = 1" if "x = [] \<and> y = []"
    using that by (simp add: score_nombre_def ratio_same)
  moreover have "score_nombre x x = 1"
    by (simp add: score_nombre_def ratio_same)
  moreover have "score_nombre x' y' = score_nombre x y"
    if "lower x' = lower x \<and> lower y' = lower y"
    using that by (simp add: score_nombre_def)
  moreover have "score_nombre (lower x) y = score_nombre x y"
    "score_nombre x (lower y) = score_nombre x y"
    by (simp_all add: score_nombre_def lower_idem)
  ultimately show ?thesis
    using score_nombre_bounds[of x y] by blast
qed

theorem score_nombre_ratio_witness:
  "score_nombre ''abcd'' ''BCDE'' = 2 * 3 / 8 \<and>
   score_nombre ''Informe'' ''Informe'' = 1 \<and>
   score_nombre ''ABC'' ''abc'' = score_nombre ''abc'' ''abc''"
proof -
  have m: "matches (lower ''abcd'') (lower ''BCDE'') = 3" by code_simp
  have l: "lower ''ABC'' = lower ''abc''" by code_simp
  from score_nombre_ratio[of "''abcd''" "''BCDE''" "''abc''" "''abc''"] m
  have 1: "score_nombre ''abcd'' ''BCDE'' = 2 * 3 / 8" by simp
  from score_nombre_ratio[of "''Informe''" "''Informe''" "''abc''" "''abc''"]
  have 2: "score_nombre ''Informe'' ''Informe'' = 1" by simp
  from score_nombre_ratio[of "''abc''" "''abc''" "''ABC''" "''abc''"] l
  have 3: "score_nombre ''ABC'' ''abc'' = score_nombre ''abc'' ''abc''" by simp
  from 1 2 3 show ?thesis by simp
qed

section \<open>Search\<close>

lemma buscar_loop_eq:
  "buscar_loop ts query args conn rows acc =
     acc @ map (\<lambda>row. mk_resultado query row conn)
       (filter (\<lambda>row. aplica_filtros ts row args conn \<and>
                       score query row conn \<ge> threshold_or args) rows)"
  by (induction rows arbitrary: acc) auto

lemma set_slice_to: "set (slice_to n xs) \<subseteq> set xs"
  by (auto simp: slice_to_def dest: in_set_takeD)

lemma set_buscar:
  "set (buscar ts query args conn) \<subseteq>
     (\<lambda>row. mk_resultado query row conn) `
       {row \<in> set (archivos conn). aplica_filtros ts row args conn \<and>
          score query row conn \<ge> threshold_or args}"
proof -
  have "set (buscar ts query args conn) \<subseteq>
      set (sort_resultados (buscar_loop ts query args conn (archivos conn) []))"
    using set_slice_to[of "arg_limit args"
        "sort_resultados (buscar_loop ts query args conn (archivos conn) [])"]
    by (auto simp: buscar_def Let_def)
  then show ?thesis
    by (auto simp: sort_resultados_def buscar_loop_eq)
qed

lemma ejemplo_xyz_sel:
  "row_path ejemplo_xyz = ''/d/xyz.log''" "row_name ejemplo_xyz = ''xyz.log''"
  by (simp_all add: ejemplo_xyz_def)

lemma ejemplo_trabajo:
  "map r_score (buscar (\<lambda>s. None) ''trabajo'' ejemplo_args ejemplo_db) = [1]"
  "map r_path (buscar (\<lambda>s. None) ''trabajo'' ejemplo_args ejemplo_db) = [''/d/xyz.log'']"
  "get_tags_for ''/d/xyz.log'' ejemplo_db = [''trabajo'']"
  "score_nombre ''trabajo'' ''xyz.log'' = 2 / 14"
  "score_nombre ''trabajo'' ''/d/xyz.log'' = 2 / 17"
  by code_simp+

text \<open>
  Claim C1. The composite score of a row is the largest of the score of the query against
  the name, the score against the path, and 1 or 0 as the query is or is not, literally,
  one of the tags recorded for the path. A row with the query among its tags has the
  composite score 1. Every result of \<open>buscar\<close> carries the composite score, and the tags,
  of a row of the table.
\<close>

theorem composite_score:
  "score query row conn =
     max (score_nombre query (row_name row))
       (max (score_nombre query (row_path row))
          (if query \<in> set (get_tags_for (row_path row) conn) then 1 else 0)) \<and>
   (query \<in> set (get_tags_for (row_path row) conn) \<longrightarrow> score query row conn = 1) \<and>
   (\<forall>r\<in>set (buscar ts query args conn).
      \<exists>row'\<in>set (archivos conn).
        r_path r = row_path row' \<and> r_name r = row_name row' \<and>
        r_tags r = get_tags_for (row_path row') conn \<and>
        r_score r = score query row' conn)"
proof -
  have "score query row conn = 1" if "query \<in> set (get_tags_for (row_path row) conn)"
    using that score_nombre_bounds[of query "row_name row"]
      score_nombre_bounds[of query "row_path row"]
    by (simp add: score_def Let_def max_def)
  moreover have "\<exists>row'\<in>set (archivos conn).
        r_path r = row_path row' \<and> r_name r = row_name row' \<and>
        r_tags r = get_tags_for (row_path row') conn \<and>
        r_score r = score query row' conn" if "r \<in> set (buscar ts query args conn)" for r
  proof -
    from that set_buscar[of ts query args conn]
    obtain row' where "row' \<in> set (archivos conn)" "r = mk_resultado query row' conn"
      by blast
    then show ?thesis by (auto simp: mk_resultado_def)
  qed
  ultimately show ?thesis by (simp add: score_def Let_def)
qed

theorem composite_score_witness:
  "''trabajo'' \<in> set (get_tags_for ''/d/xyz.log'' ejemplo_db) \<and>
   score ''trabajo''
     ejemplo_xyz ejemplo_db = 1 \<and>
   score_nombre ''trabajo'' ''xyz.log'' = 2 / 14 \<and>
   map r_score (buscar (\<lambda>s. None) ''trabajo'' ejemplo_args ejemplo_db) = [1]"
  using composite_score
    [of "''trabajo''"
        "ejemplo_xyz"
        ejemplo_db "\<lambda>s. None" ejemplo_args]
  by (simp add: ejemplo_trabajo ejemplo_xyz_sel)

section \<open>Filters\<close>

text \<open>
  Claim C5 at \<^verbatim>\<open>--max-size 0\<close>: the test \<^verbatim>\<open>if args.max_size and size > args.max_size\<close>
  takes the bound 0 for an option that was not given, and a file of 2048 bytes is admitted.
\<close>

theorem max_size_zero_ignored:
  "aplica_filtros (\<lambda>s. None)
     ejemplo_report
     (ejemplo_args\<lparr>arg_max_size := Some 0\<rparr>) ejemplo_db \<and>
   \<not> (2048 :: int) \<le> 0"
  by (simp add: aplica_filtros_def ejemplo_args_def ejemplo_xyz_def ejemplo_report_def)

text \<open>
  Claim C6 at an unparsable \<^verbatim>\<open>--after\<close>: the bound becomes 0, the epoch, so a file
  whose modification time is negative (before 1970) is rejected. The same file passes an
  unparsable \<^verbatim>\<open>--before\<close>, whose bound becomes \<^verbatim>\<open>float('inf')\<close>.
\<close>

theorem after_unparsable_is_epoch:
  "(\<lambda>s. None :: rat option) ''ayer'' = None \<and>
   \<not> aplica_filtros (\<lambda>s. None)
     ejemplo_xyz
     (ejemplo_args\<lparr>arg_after := Some ''ayer''\<rparr>) ejemplo_db \<and>
   aplica_filtros (\<lambda>s. None)
     ejemplo_xyz
     (ejemplo_args\<lparr>arg_before := Some ''ayer''\<rparr>) ejemplo_db"
  by (simp add: aplica_filtros_def ejemplo_args_def ejemplo_xyz_def ejemplo_report_def)

section \<open>The threshold\<close>

lemma aplica_filtros_threshold:
  "aplica_filtros ts row (args\<lparr>arg_threshold := x\<rparr>) conn = aplica_filtros ts row args conn"
  by (simp add: aplica_filtros_def)

lemma ejemplo_busqueda:
  "score ''report''
     ejemplo_xyz ejemplo_db = 2 / 13"
  "map r_path (buscar (\<lambda>s. None) ''report'' (ejemplo_args\<lparr>arg_threshold := Some 0\<rparr>) ejemplo_db) =
     [''/d/report.pdf'', ''/d/reports_2023.txt'']"
  by code_simp+

text \<open>
  Claim C10. A search with the threshold 0.0 gives what a search with the threshold 0.4
  gives. In the example store the row of \<open>xyz.log\<close> passes the filters and scores 2/13
  against \<open>report\<close>, strictly between 0 and 0.4, and is not among the results of the
  search with threshold 0.0.
\<close>

theorem threshold_zero_is_default:
  "buscar ts query (args\<lparr>arg_threshold := Some 0\<rparr>) conn =
     buscar ts query (args\<lparr>arg_threshold := Some (4 / 10)\<rparr>) conn \<and>
   (\<exists>row. row \<in> set (archivos ejemplo_db) \<and>
      aplica_filtros (\<lambda>s. None) row (ejemplo_args\<lparr>arg_threshold := Some 0\<rparr>) ejemplo_db \<and>
      0 < score ''report'' row ejemplo_db \<and> score ''report'' row ejemplo_db < 4 / 10 \<and>
      row_path row \<notin>
        set (map r_path
          (buscar (\<lambda>s. None) ''report'' (ejemplo_args\<lparr>arg_threshold := Some 0\<rparr>) ejemplo_db)))"
proof -
  have "buscar ts query (args\<lparr>arg_threshold := Some 0\<rparr>) conn =
     buscar ts query (args\<lparr>arg_threshold := Some (4 / 10)\<rparr>) conn"
    by (simp add: buscar_def Let_def buscar_loop_eq threshold_or_def aplica_filtros_threshold)
  moreover have "ejemplo_xyz \<in> set (archivos ejemplo_db)"
    by (simp add: ejemplo_db_def)
  moreover have "aplica_filtros (\<lambda>s. None)
     ejemplo_xyz (ejemplo_args\<lparr>arg_threshold := Some 0\<rparr>) ejemplo_db"
    by (simp add: aplica_filtros_def ejemplo_args_def ejemplo_xyz_def ejemplo_report_def)
  ultimately show ?thesis
    by (intro conjI exI[of _ "ejemplo_xyz"]) (simp_all add: ejemplo_busqueda ejemplo_xyz_sel)
qed

section \<open>Ranking and truncation\<close>

lemma sorted_desc_sort_resultados:
  "sorted_wrt (\<lambda>r r'. r_score r \<ge> r_score r') (sort_resultados xs)"
proof -
  have "sorted (map (\<lambda>x. - r_score x) (sort_key (\<lambda>x. - r_score x) xs))"
    by (rule sorted_sort_key)
  then show ?thesis by (simp add: sort_resultados_def sorted_map)
qed

lemma mset_sort_resultados: "mset (sort_resultados xs) = mset xs"
  by (simp add: sort_resultados_def)

lemma sorted_desc_take_drop:
  assumes "sorted_wrt (\<lambda>r r'. r_score r \<ge> r_score r') xs"
  shows "sorted_wrt (\<lambda>r r'. r_score r \<ge> r_score r') (take n xs) \<and>
         (\<forall>r\<in>set (take n xs). \<forall>r'\<in>set (drop n xs). r_score r' \<le> r_score r)"
proof -
  have "sorted_wrt (\<lambda>r r'. r_score r \<ge> r_score r') (take n xs @ drop n xs)"
    using assms by simp
  then show ?thesis unfolding sorted_wrt_append by blast
qed

lemma buscar_take:
  assumes "0 \<le> arg_limit args"
  shows "buscar ts query args conn =
     take (nat (arg_limit args))
       (sort_resultados (map (\<lambda>row. mk_resultado query row conn)
          (filter (\<lambda>row. aplica_filtros ts row args conn \<and>
                          score query row conn \<ge> threshold_or args) (archivos conn))))"
  using assms by (simp add: buscar_def Let_def buscar_loop_eq slice_to_def)

lemma ejemplo_ranked:
  "map r_name (buscar (\<lambda>s. None) ''report'' (ejemplo_args\<lparr>arg_limit := 1\<rparr>) ejemplo_db) =
     [''report.pdf'']"
  "map r_name (buscar (\<lambda>s. None) ''report''
      (ejemplo_args\<lparr>arg_threshold := Some (1 / 10), arg_limit := - 1\<rparr>) ejemplo_db) =
     [''report.pdf'', ''reports_2023.txt'']"
  "score ''report'' ejemplo_reports ejemplo_db = 6 / 11"
  by code_simp+

text \<open>
  Claim C2 says that, for every threshold and every limit, a record is in the result
  exactly when it passes the filters and scores at least the threshold, and that the
  result has at most \<open>limit\<close> items. With the threshold 0.0 the row of \<open>xyz.log\<close> passes
  the filters and scores at least 0.0, and is not in the result. With the limit -1 the
  slice \<^verbatim>\<open>resultados[:-1]\<close> drops the last of three results and keeps two.
\<close>

theorem buscar_threshold_limit_counterexample:
  "aplica_filtros (\<lambda>s. None) ejemplo_xyz (ejemplo_args\<lparr>arg_threshold := Some 0\<rparr>) ejemplo_db \<and>
   score ''report'' ejemplo_xyz ejemplo_db \<ge> 0 \<and>
   ejemplo_xyz \<in> set (archivos ejemplo_db) \<and>
   row_path ejemplo_xyz \<notin>
     set (map r_path
       (buscar (\<lambda>s. None) ''report'' (ejemplo_args\<lparr>arg_threshold := Some 0\<rparr>) ejemplo_db)) \<and>
   \<not> int (length (buscar (\<lambda>s. None) ''report''
          (ejemplo_args\<lparr>arg_threshold := Some (1 / 10), arg_limit := - 1\<rparr>) ejemplo_db))
      \<le> arg_limit (ejemplo_args\<lparr>arg_threshold := Some (1 / 10), arg_limit := - 1\<rparr>)"
proof -
  have "aplica_filtros (\<lambda>s. None) ejemplo_xyz (ejemplo_args\<lparr>arg_threshold := Some 0\<rparr>) ejemplo_db"
    by (simp add: aplica_filtros_def ejemplo_args_def)
  moreover have "length (buscar (\<lambda>s. None) ''report''
      (ejemplo_args\<lparr>arg_threshold := Some (1 / 10), arg_limit := - 1\<rparr>) ejemplo_db) = 2"
  proof -
    have "length (map r_name (buscar (\<lambda>s. None) ''report''
      (ejemplo_args\<lparr>arg_threshold := Some (1 / 10), arg_limit := - 1\<rparr>) ejemplo_db)) = 2"
      unfolding ejemplo_ranked(2) by simp
    then show ?thesis by (simp only: length_map)
  qed
  moreover have "ejemplo_xyz \<in> set (archivos ejemplo_db)"
    by (simp add: ejemplo_db_def)
  ultimately show ?thesis
    by (simp add: ejemplo_busqueda ejemplo_xyz_sel)
qed

text \<open>
  Claim C2, amended. Let the threshold be a number other than 0.0, or not given, in which
  case it is 0.4, and let the limit be 0 or more. Then the result of \<open>buscar\<close>, followed
  by some list \<open>rest\<close>, is a rearrangement of the records that pass \<open>aplica_filtros\<close> and
  score at least the threshold; no record of \<open>rest\<close> scores more than a record of the
  result; \<open>rest\<close> is empty unless the result has exactly \<open>limit\<close> items; the result is
  in descending order of the score and has at most \<open>limit\<close> items.
\<close>

theorem buscar_ranked:
  assumes "arg_threshold args \<noteq> Some 0" and "0 \<le> arg_limit args"
    and "thr = (case arg_threshold args of None \<Rightarrow> 4 / 10 | Some t \<Rightarrow> t)"
  shows "(\<exists>rest.
            mset (buscar ts query args conn @ rest) =
              mset (map (\<lambda>row. mk_resultado query row conn)
                (filter (\<lambda>row. aplica_filtros ts row args conn \<and> score query row conn \<ge> thr)
                   (archivos conn))) \<and>
            (rest \<noteq> [] \<longrightarrow> int (length (buscar ts query args conn)) = arg_limit args) \<and>
            (\<forall>r\<in>set (buscar ts query args conn). \<forall>r'\<in>set rest. r_score r' \<le> r_score r)) \<and>
         sorted_wrt (\<lambda>r r'. r_score r \<ge> r_score r') (buscar ts query args conn) \<and>
         int (length (buscar ts query args conn)) \<le> arg_limit args"
proof -
  let ?Q = "map (\<lambda>row. mk_resultado query row conn)
      (filter (\<lambda>row. aplica_filtros ts row args conn \<and> score query row conn \<ge> thr)
         (archivos conn))"
  let ?S = "sort_resultados ?Q"
  let ?n = "nat (arg_limit args)"
  have thr: "threshold_or args = thr"
    using assms(1,3) by (auto simp: threshold_or_def split: option.splits)
  have b: "buscar ts query args conn = take ?n ?S"
    using buscar_take[OF assms(2), of ts query conn] unfolding thr .
  have sd: "sorted_wrt (\<lambda>r r'. r_score r \<ge> r_score r') ?S"
    by (rule sorted_desc_sort_resultados)
  from sorted_desc_take_drop[OF sd, of ?n]
  have s1: "sorted_wrt (\<lambda>r r'. r_score r \<ge> r_score r') (take ?n ?S)"
    and s2: "\<forall>r\<in>set (take ?n ?S). \<forall>r'\<in>set (drop ?n ?S). r_score r' \<le> r_score r"
    by simp_all
  have m: "mset (take ?n ?S @ drop ?n ?S) = mset ?Q"
    by (simp add: mset_sort_resultados)
  have l: "drop ?n ?S \<noteq> [] \<longrightarrow> int (length (take ?n ?S)) = arg_limit args"
    using assms(2) by auto
  have le: "int (length (take ?n ?S)) \<le> arg_limit args"
    using assms(2) by auto
  have "\<exists>rest. mset (take ?n ?S @ rest) = mset ?Q \<and>
      (rest \<noteq> [] \<longrightarrow> int (length (take ?n ?S)) = arg_limit args) \<and>
      (\<forall>r\<in>set (take ?n ?S). \<forall>r'\<in>set rest. r_score r' \<le> r_score r)"
    using m l s2 by blast
  then show ?thesis unfolding b using s1 le by blast
qed

theorem buscar_ranked_witness:
  "arg_threshold (ejemplo_args\<lparr>arg_limit := 1\<rparr>) \<noteq> Some 0 \<and>
   0 \<le> arg_limit (ejemplo_args\<lparr>arg_limit := 1\<rparr>) \<and>
   map r_name (buscar (\<lambda>s. None) ''report'' (ejemplo_args\<lparr>arg_limit := 1\<rparr>) ejemplo_db) =
     [''report.pdf''] \<and>
   int (length (buscar (\<lambda>s. None) ''report'' (ejemplo_args\<lparr>arg_limit := 1\<rparr>) ejemplo_db)) \<le> 1 \<and>
   sorted_wrt (\<lambda>r r'. r_score r \<ge> r_score r')
     (buscar (\<lambda>s. None) ''report'' (ejemplo_args\<lparr>arg_limit := 1\<rparr>) ejemplo_db)"
proof -
  have h: "arg_threshold (ejemplo_args\<lparr>arg_limit := 1\<rparr>) \<noteq> Some 0"
    "0 \<le> arg_limit (ejemplo_args\<lparr>arg_limit := 1\<rparr>)"
    "(4 / 10 :: rat) = (case arg_threshold (ejemplo_args\<lparr>arg_limit := 1\<rparr>) of
        None \<Rightarrow> 4 / 10 | Some t \<Rightarrow> t)"
    by (simp_all add: ejemplo_args_def)
  from buscar_ranked[OF h, of "\<lambda>s. None" "''report''" ejemplo_db] h(1,2)
  show ?thesis by (simp add: ejemplo_ranked(1))
qed

section \<open>Tag counts\<close>

lemma exec_tags_distinct: "distinct (tags conn) \<Longrightarrow> distinct (tags (exec conn c))"
  by (cases c) (auto simp: tag_add_def tag_remove_def indexar_def split: prod.splits sum.splits)

lemma foldl_exec_tags_distinct:
  "distinct (tags conn) \<Longrightarrow> distinct (tags (foldl exec conn cmds))"
  by (induction cmds arbitrary: conn) (simp_all add: exec_tags_distinct)

lemma run_tags_distinct: "distinct (tags (run cmds))"
  unfolding run_def by (rule foldl_exec_tags_distinct) (simp add: db_connect_def)

lemma count_rows_card:
  assumes "distinct xs"
  shows "length (filter (\<lambda>(fp, t'). t' = t) xs) = card {p. (p, t) \<in> set xs}"
proof -
  have d: "distinct (map fst (filter (\<lambda>(fp, t'). t' = t) xs))"
    using assms
  proof (induction xs)
    case Nil
    then show ?case by simp
  next
    case (Cons x xs)
    then show ?case by (cases x) (auto simp: image_iff)
  qed
  have "{p. (p, t) \<in> set xs} = set (map fst (filter (\<lambda>(fp, t'). t' = t) xs))"
    by (auto simp: image_iff)
  then show ?thesis using distinct_card[OF d] by simp
qed

lemma tag_groups_set:
  "set (tag_groups conn) =
     {(t, c). t \<in> snd ` set (tags conn) \<and> c = length (filter (\<lambda>(fp, t'). t' = t) (tags conn))}"
  by (auto simp: tag_groups_def)

text \<open>
  Claim C9 says that ties between equal counts are broken by the tag, ascending. The query
  orders by the count alone: after four \<open>tag-add\<close> commands the rows \<open>x (2)\<close>,
  \<open>z (1)\<close>, \<open>y (1)\<close> are a result it may give, and \<open>z\<close> comes before \<open>y\<close>.
\<close>

theorem list_tags_ties_counterexample:
  "list_tags_rows (run ejemplo_tags) [(''x'', 2), (''z'', 1), (''y'', 1)] \<and>
   \<not> count_desc_tag_asc [(''x'', 2), (''z'', 1), (''y'', 1)]"
  by code_simp

text \<open>
  Claim C9, amended. In every store that a run of the program reaches, the rows that
  \<open>list_tags\<close> fetches hold, for every tag of the table and for no other, the number of
  distinct paths that carry the tag, each tag once, in descending order of the count.
\<close>

theorem list_tags_counts:
  "list_tags_rows (run cmds) rows \<Longrightarrow>
   (\<forall>t c. (t, c) \<in> set rows \<longleftrightarrow>
      t \<in> snd ` set (tags (run cmds)) \<and> c = card {p. (p, t) \<in> set (tags (run cmds))}) \<and>
   distinct (map fst rows) \<and>
   sorted_wrt (\<lambda>x y. snd x \<ge> snd y) rows"
proof -
  assume a: "list_tags_rows (run cmds) rows"
  then have s: "set rows = set (tag_groups (run cmds))" and d: "distinct rows"
    and o: "sorted_wrt (\<lambda>x y. snd x \<ge> snd y) rows"
    by (simp_all add: list_tags_rows_def)
  have 1: "(t, c) \<in> set rows \<longleftrightarrow>
      t \<in> snd ` set (tags (run cmds)) \<and> c = card {p. (p, t) \<in> set (tags (run cmds))}" for t c
    unfolding s tag_groups_set count_rows_card[OF run_tags_distinct] by simp
  have inj: "inj_on fst (set rows)"
    unfolding inj_on_def using 1 by (metis prod.collapse)
  have 2: "distinct (map fst rows)"
    using d inj by (simp add: distinct_map)
  show ?thesis using 1 2 o by blast
qed

theorem list_tags_counts_witness:
  "list_tags_rows (run ejemplo_tags) [(''x'', 2), (''y'', 1), (''z'', 1)] \<and>
   (''x'', 2) \<in> set [(''x'', 2 :: nat), (''y'', 1), (''z'', 1)] \<and>
   card {p. (p, ''x'') \<in> set (tags (run ejemplo_tags))} = 2"
proof -
  have r: "list_tags_rows (run ejemplo_tags) [(''x'', 2), (''y'', 1), (''z'', 1)]"
    by code_simp
  from list_tags_counts[OF r] have
    "(''x'', 2) \<in> set [(''x'', 2 :: nat), (''y'', 1), (''z'', 1)] \<longleftrightarrow>
      ''x'' \<in> snd ` set (tags (run ejemplo_tags)) \<and>
      2 = card {p. (p, ''x'') \<in> set (tags (run ejemplo_tags))}"
    by blast
  then show ?thesis using r by simp
qed

end
